theory Spec2Isabelle
  imports Main
begin

section \<open>The scheduler of \<^verbatim>\<open>src/main.py\<close> (class \<^verbatim>\<open>ExamScheduler\<close>)\<close>

text \<open>
  \<^verbatim>\<open>ExamScheduler.__init__\<close> creates two fields: \<^verbatim>\<open>courses\<close>, a Python set of course
  names, and \<^verbatim>\<open>graph\<close>, a \<^verbatim>\<open>defaultdict(set)\<close> from a course name to the set of the
  courses it conflicts with. The dictionary is a partial map: a key can be absent, and
  reading \<^verbatim>\<open>self.graph[c]\<close> at an absent key stores a fresh empty set there.
\<close>

record scheduler =
  courses :: "string set"
  graph :: "string \<rightharpoonup> string set"

definition init :: scheduler where
  "init = \<lparr>courses = {}, graph = Map.empty\<rparr>"

text \<open>The value of the expression \<^verbatim>\<open>self.graph[c]\<close>.\<close>

definition graph_get :: "(string \<rightharpoonup> string set) \<Rightarrow> string \<Rightarrow> string set" where
  "graph_get g c = (case g c of None \<Rightarrow> {} | Some neighbors \<Rightarrow> neighbors)"

text \<open>The dictionary after the expression \<^verbatim>\<open>self.graph[c]\<close> has been evaluated.\<close>

definition graph_touch :: "(string \<rightharpoonup> string set) \<Rightarrow> string \<Rightarrow> (string \<rightharpoonup> string set)" where
  "graph_touch g c = (case g c of None \<Rightarrow> g(c \<mapsto> {}) | Some neighbors \<Rightarrow> g)"

text \<open>\<^verbatim>\<open>self.graph[c].add(x)\<close>\<close>

definition graph_add :: "(string \<rightharpoonup> string set) \<Rightarrow> string \<Rightarrow> string \<Rightarrow> (string \<rightharpoonup> string set)" where
  "graph_add g c x = g(c \<mapsto> insert x (graph_get g c))"

definition add_course :: "string \<Rightarrow> scheduler \<Rightarrow> scheduler" where
  "add_course course s = s\<lparr>courses := insert course (courses s)\<rparr>"

text \<open>
  \<^verbatim>\<open>remove_course\<close>: when the course is registered, it leaves the set, its own entry of
  the dictionary is deleted, and it is discarded from every remaining value.
\<close>

definition remove_course :: "string \<Rightarrow> scheduler \<Rightarrow> scheduler" where
  "remove_course course s =
     (if course \<in> courses s
      then \<lparr>courses = courses s - {course},
            graph = (\<lambda>k. map_option (\<lambda>neighbors. neighbors - {course})
                              (((graph s)(course := None)) k))\<rparr>
      else s)"

text \<open>\<^verbatim>\<open>add_conflict\<close> has no check of its arguments and no \<^verbatim>\<open>raise\<close>.\<close>

definition add_conflict :: "string \<Rightarrow> string \<Rightarrow> scheduler \<Rightarrow> scheduler" where
  "add_conflict course1 course2 s =
     \<lparr>courses = courses s \<union> {course1, course2},
      graph = graph_add (graph_add (graph s) course1 course2) course2 course1\<rparr>"

subsection \<open>\<^verbatim>\<open>schedule_exams\<close>\<close>

text \<open>
  \<^verbatim>\<open>time_slots\<close> is a dictionary from course to slot; \<^verbatim>\<open>slot_counts\<close> is a local
  \<^verbatim>\<open>defaultdict(int)\<close> that is only read and incremented, modelled by its reading
  function (0 at an absent key).
\<close>

type_synonym assignment = "string \<rightharpoonup> nat"

text \<open>
  \<^verbatim>\<open>{time_slots[neighbor] for neighbor in self.graph[course] if neighbor in time_slots}\<close>
\<close>

definition assigned_slots :: "assignment \<Rightarrow> string set \<Rightarrow> nat set" where
  "assigned_slots time_slots neighbors =
     (\<lambda>neighbor. the (time_slots neighbor)) ` {neighbor \<in> neighbors. neighbor \<in> dom time_slots}"

text \<open>
  \<^verbatim>\<open>while slot in assigned_slots or slot_counts[slot] >= 2: slot += 1\<close>.
  Nothing in the loop bounds the search, so not returning is the value \<open>None\<close>.
\<close>

partial_function (option) find_slot :: "nat set \<Rightarrow> (nat \<Rightarrow> nat) \<Rightarrow> nat \<Rightarrow> nat option" where
  "find_slot assigned slot_counts slot =
     (if slot \<in> assigned \<or> slot_counts slot \<ge> 2
      then find_slot assigned slot_counts (slot + 1)
      else Some slot)"

declare find_slot.simps [code]

text \<open>One iteration of \<^verbatim>\<open>for course in sorted_courses\<close>.\<close>

definition place ::
  "(string \<rightharpoonup> string set) \<Rightarrow> string \<Rightarrow> assignment \<times> (nat \<Rightarrow> nat)
     \<Rightarrow> (assignment \<times> (nat \<Rightarrow> nat)) option" where
  "place g course st =
     (case st of (time_slots, slot_counts) \<Rightarrow>
        (case find_slot (assigned_slots time_slots (graph_get g course)) slot_counts 1 of
           None \<Rightarrow> None
         | Some slot \<Rightarrow>
             Some (time_slots(course \<mapsto> slot), slot_counts(slot := slot_counts slot + 1))))"

fun assign_all ::
  "(string \<rightharpoonup> string set) \<Rightarrow> string list \<Rightarrow> assignment \<times> (nat \<Rightarrow> nat)
     \<Rightarrow> (assignment \<times> (nat \<Rightarrow> nat)) option" where
  "assign_all g [] st = Some st"
| "assign_all g (course # rest) st =
     (case place g course st of None \<Rightarrow> None | Some st' \<Rightarrow> assign_all g rest st')"

text \<open>
  \<^verbatim>\<open>sorted(self.courses, key=lambda c: len(self.graph[c]), reverse=True)\<close>.
  A Python set has no documented iteration order, so the order in which
  \<^verbatim>\<open>self.courses\<close> is enumerated is an input of the model: the list \<open>enum\<close>.
  \<^verbatim>\<open>sorted\<close> is stable, also with \<^verbatim>\<open>reverse=True\<close>: courses of equal degree keep the
  order of \<open>enum\<close>. The key function is called once on every course, and the call
  \<^verbatim>\<open>self.graph[c]\<close> stores an empty set for a course that has no entry.
\<close>

definition enumerates :: "string list \<Rightarrow> string set \<Rightarrow> bool" where
  "enumerates enum cs = (distinct enum \<and> set enum = cs)"

definition degree :: "(string \<rightharpoonup> string set) \<Rightarrow> string \<Rightarrow> nat" where
  "degree g c = card (graph_get g c)"

definition sorted_courses :: "(string \<rightharpoonup> string set) \<Rightarrow> string list \<Rightarrow> string list" where
  "sorted_courses g enum = sort_key (\<lambda>c. - int (degree g c)) enum"

definition touch_all :: "(string \<rightharpoonup> string set) \<Rightarrow> string list \<Rightarrow> (string \<rightharpoonup> string set)" where
  "touch_all g enum = fold (\<lambda>c g'. graph_touch g' c) enum g"

text \<open>
  \<^verbatim>\<open>schedule_exams\<close> returns the dictionary \<^verbatim>\<open>time_slots\<close>; the model returns with it the
  scheduler as the call leaves it.
\<close>

definition schedule_exams :: "string list \<Rightarrow> scheduler \<Rightarrow> (assignment \<times> scheduler) option" where
  "schedule_exams enum s =
     (if courses s = {} then Some (Map.empty, s)
      else
        let g = touch_all (graph s) enum in
        (case assign_all g (sorted_courses (graph s) enum) (Map.empty, \<lambda>slot. 0) of
           None \<Rightarrow> None
         | Some (time_slots, slot_counts) \<Rightarrow> Some (time_slots, s\<lparr>graph := g\<rparr>)))"


subsection \<open>The handler \<^verbatim>\<open>ExamPlannerUI.add_conflict\<close>\<close>

text \<open>
  The window's handler reads the two entry fields, strips them, and checks them before
  it calls the scheduler; \<open>course1\<close> and \<open>course2\<close> are the stripped texts. Each branch
  shows one message box, modelled by the value returned with the scheduler.
\<close>

datatype notice =
    Enter_both_names
  | Cannot_conflict_with_itself
  | Courses_do_not_exist
  | Conflict_added

definition ui_add_conflict :: "string \<Rightarrow> string \<Rightarrow> scheduler \<Rightarrow> notice \<times> scheduler" where
  "ui_add_conflict course1 course2 s =
     (if course1 = [] \<or> course2 = [] then (Enter_both_names, s)
      else if course1 = course2 then (Cannot_conflict_with_itself, s)
      else if course1 \<notin> courses s \<or> course2 \<notin> courses s then (Courses_do_not_exist, s)
      else (Conflict_added, add_conflict course1 course2 s))"

subsection \<open>Sequences of calls\<close>

text \<open>
  \<open>run calls s\<close>: a scheduler created by \<^verbatim>\<open>ExamScheduler()\<close> is in state \<open>s\<close> after the
  calls of the list, made in that order. A call of \<^verbatim>\<open>schedule_exams\<close> carries the
  order in which the set of courses was enumerated.
\<close>

datatype call =
    Add_course string
  | Remove_course string
  | Add_conflict string string
  | Schedule_exams "string list"

inductive run :: "call list \<Rightarrow> scheduler \<Rightarrow> bool" where
  start: "run [] init"
| add_course: "run calls s \<Longrightarrow> run (calls @ [Add_course c]) (add_course c s)"
| remove_course: "run calls s \<Longrightarrow> run (calls @ [Remove_course c]) (remove_course c s)"
| add_conflict: "run calls s \<Longrightarrow> run (calls @ [Add_conflict a b]) (add_conflict a b s)"
| schedule_exams:
    "run calls s \<Longrightarrow> enumerates enum (courses s) \<Longrightarrow> schedule_exams enum s = Some (ts, s')
       \<Longrightarrow> run (calls @ [Schedule_exams enum]) s'"

code_pred run .

subsection \<open>Properties of a conflict graph and of an assignment\<close>

definition symmetric :: "(string \<rightharpoonup> string set) \<Rightarrow> bool" where
  "symmetric g = (\<forall>a b. b \<in> graph_get g a \<longrightarrow> a \<in> graph_get g b)"

definition irreflexive :: "(string \<rightharpoonup> string set) \<Rightarrow> bool" where
  "irreflexive g = (\<forall>a. a \<notin> graph_get g a)"

text \<open>Every key and every neighbour recorded in the dictionary is a registered course.\<close>

definition registered :: "scheduler \<Rightarrow> bool" where
  "registered s = (\<forall>k. (k \<notin> courses s \<longrightarrow> graph s k = None) \<and> graph_get (graph s) k \<subseteq> courses s)"

text \<open>The courses that an assignment puts in a slot.\<close>

definition slot_members :: "assignment \<Rightarrow> nat \<Rightarrow> string set" where
  "slot_members time_slots slot = {c. time_slots c = Some slot}"

text \<open>
  What holds of \<^verbatim>\<open>time_slots\<close> and \<^verbatim>\<open>slot_counts\<close> before and after every iteration of
  the loop over \<^verbatim>\<open>sorted_courses\<close>.
\<close>

definition loop_inv :: "(string \<rightharpoonup> string set) \<Rightarrow> assignment \<Rightarrow> (nat \<Rightarrow> nat) \<Rightarrow> bool" where
  "loop_inv g ts cnt =
     (finite (dom ts)
      \<and> (\<forall>k. cnt k = card (slot_members ts k))
      \<and> (\<forall>k. cnt k \<le> 2)
      \<and> (\<forall>c k. ts c = Some k \<longrightarrow> 1 \<le> k \<and> (\<forall>t. 1 \<le> t \<and> t < k \<longrightarrow> slot_members ts t \<noteq> {}))
      \<and> (symmetric g \<longrightarrow>
           (\<forall>a b. a \<in> dom ts \<and> b \<in> dom ts \<and> a \<noteq> b \<and> b \<in> graph_get g a \<longrightarrow> ts a \<noteq> ts b)))"

subsection \<open>The worked example: a cycle of four courses\<close>

definition cycle4 :: scheduler where
  "cycle4 = add_conflict ''A'' ''D'' (add_conflict ''C'' ''D''
              (add_conflict ''B'' ''C'' (add_conflict ''A'' ''B'' init)))"

section \<open>The slot search\<close>

lemma find_slot_first:
  "k \<le> r \<Longrightarrow> r \<notin> A \<Longrightarrow> cnt r < 2 \<Longrightarrow> (\<forall>t. k \<le> t \<and> t < r \<longrightarrow> t \<in> A \<or> 2 \<le> cnt t)
     \<Longrightarrow> find_slot A cnt k = Some r"
proof (induction "r - k" arbitrary: k)
  case 0
  then have "k = r" by simp
  with 0 show ?case by (subst find_slot.simps) simp
next
  case (Suc n)
  then have lt: "k < r" by simp
  with Suc.prems have bad: "k \<in> A \<or> 2 \<le> cnt k" by simp
  have "find_slot A cnt (k + 1) = Some r"
    using Suc.hyps(1)[of "k + 1"] Suc.hyps(2) Suc.prems lt by simp
  with bad show ?case by (subst find_slot.simps) auto
qed

lemma find_slot_total:
  assumes "finite A" "finite {t. 2 \<le> cnt t}"
  shows "\<exists>r. find_slot A cnt k = Some r \<and> k \<le> r \<and> r \<notin> A \<and> cnt r < 2
             \<and> (\<forall>t. k \<le> t \<and> t < r \<longrightarrow> t \<in> A \<or> 2 \<le> cnt t)"
proof -
  let ?free = "\<lambda>t. k \<le> t \<and> t \<notin> A \<and> cnt t < 2"
  have "finite (A \<union> {t. 2 \<le> cnt t})" using assms by simp
  then obtain m where m: "\<forall>t \<in> A \<union> {t. 2 \<le> cnt t}. t \<le> m"
    by (meson finite_nat_set_iff_bounded_le)
  have "?free (Suc (max m k))"
  proof -
    have "Suc (max m k) \<notin> A" using m by (auto simp: not_less_eq_eq dest!: bspec[where x="Suc (max m k)"])
    moreover have "\<not> 2 \<le> cnt (Suc (max m k))" using m by (auto dest!: bspec[where x="Suc (max m k)"])
    ultimately show ?thesis by auto
  qed
  then have ex: "\<exists>t. ?free t" ..
  define r where "r = (LEAST t. ?free t)"
  have fr: "?free r" unfolding r_def using ex by (rule LeastI_ex)
  have least: "\<And>t. ?free t \<Longrightarrow> r \<le> t" unfolding r_def by (rule Least_le)
  have "\<forall>t. k \<le> t \<and> t < r \<longrightarrow> t \<in> A \<or> 2 \<le> cnt t"
    using least by (meson linorder_not_less)
  with fr have "find_slot A cnt k = Some r" by (intro find_slot_first) auto
  with fr \<open>\<forall>t. k \<le> t \<and> t < r \<longrightarrow> t \<in> A \<or> 2 \<le> cnt t\<close> show ?thesis by auto
qed


lemma finite_slot_members: "finite (dom ts) \<Longrightarrow> finite (slot_members ts k)"
  by (rule finite_subset[of _ "dom ts"]) (auto simp: slot_members_def)

lemma slot_members_upd:
  "c \<notin> dom ts \<Longrightarrow> slot_members (ts(c \<mapsto> r)) k
      = (if k = r then insert c (slot_members ts k) else slot_members ts k)"
  by (auto simp: slot_members_def)

lemma finite_assigned_slots: "finite (dom ts) \<Longrightarrow> finite (assigned_slots ts N)"
  unfolding assigned_slots_def by (rule finite_imageI, rule finite_subset[of _ "dom ts"]) auto

lemma assigned_slots_iff:
  "t \<in> assigned_slots ts N \<longleftrightarrow> (\<exists>n \<in> N. ts n = Some t)"
  by (auto simp: assigned_slots_def image_iff dom_def)

lemma finite_full_slots:
  assumes "finite (dom ts)" "\<forall>k. cnt k = card (slot_members ts k)"
  shows "finite {t. (2::nat) \<le> cnt t}"
proof (rule finite_subset)
  show "{t. 2 \<le> cnt t} \<subseteq> (\<lambda>c. the (ts c)) ` dom ts"
  proof
    fix t assume "t \<in> {t. 2 \<le> cnt t}"
    then have "card (slot_members ts t) \<noteq> 0" using assms(2) by simp
    then have "slot_members ts t \<noteq> {}" by auto
    then obtain c where "ts c = Some t" by (auto simp: slot_members_def)
    then show "t \<in> (\<lambda>c. the (ts c)) ` dom ts" by force
  qed
  show "finite ((\<lambda>c. the (ts c)) ` dom ts)" using assms(1) by simp
qed

lemma place_step:
  assumes inv: "loop_inv g ts cnt" and fresh: "c \<notin> dom ts"
  shows "\<exists>r. place g c (ts, cnt) = Some (ts(c \<mapsto> r), cnt(r := cnt r + 1))
             \<and> loop_inv g (ts(c \<mapsto> r)) (cnt(r := cnt r + 1))"
proof -
  let ?A = "assigned_slots ts (graph_get g c)"
  from inv have fin: "finite (dom ts)"
    and cnt: "\<And>k. cnt k = card (slot_members ts k)"
    and cap: "\<And>k. cnt k \<le> 2"
    and pos: "\<And>x k. ts x = Some k \<Longrightarrow> 1 \<le> k"
    and contig: "\<And>x k t. ts x = Some k \<Longrightarrow> 1 \<le> t \<Longrightarrow> t < k \<Longrightarrow> slot_members ts t \<noteq> {}"
    and proper: "\<And>a b. symmetric g \<Longrightarrow> a \<in> dom ts \<Longrightarrow> b \<in> dom ts \<Longrightarrow> a \<noteq> b
                    \<Longrightarrow> b \<in> graph_get g a \<Longrightarrow> ts a \<noteq> ts b"
    unfolding loop_inv_def by blast+
  have "finite ?A" using fin by (rule finite_assigned_slots)
  moreover have "finite {t. 2 \<le> cnt t}" using fin cnt by (intro finite_full_slots) auto
  ultimately obtain r where r: "find_slot ?A cnt 1 = Some r" and r1: "1 \<le> r"
    and rA: "r \<notin> ?A" and rc: "cnt r < 2"
    and below: "\<And>t. 1 \<le> t \<Longrightarrow> t < r \<Longrightarrow> t \<in> ?A \<or> 2 \<le> cnt t"
    using find_slot_total[of ?A cnt 1] by blast
  let ?ts = "ts(c \<mapsto> r)" and ?cnt = "cnt(r := cnt r + 1)"
  have mem: "\<And>k. slot_members ?ts k = (if k = r then insert c (slot_members ts k) else slot_members ts k)"
    using fresh by (rule slot_members_upd)
  have sub: "\<And>k. slot_members ts k \<subseteq> slot_members ?ts k" by (auto simp: mem)
  have c_notin: "\<And>k. c \<notin> slot_members ts k" using fresh by (auto simp: slot_members_def)
  have i1: "finite (dom ?ts)" using fin by simp
  have i2: "\<forall>k. ?cnt k = card (slot_members ?ts k)"
    using cnt c_notin finite_slot_members[OF fin] by (simp add: mem)
  have i3: "\<forall>k. ?cnt k \<le> 2" using cap rc by simp
  have nonempty_below: "slot_members ts t \<noteq> {}" if "1 \<le> t" "t < r" for t
  proof -
    from below[OF that] show ?thesis
    proof
      assume "t \<in> ?A"
      then show ?thesis by (auto simp: assigned_slots_iff slot_members_def)
    next
      assume "2 \<le> cnt t"
      then have "card (slot_members ts t) \<noteq> 0" using cnt[of t] by simp
      then show ?thesis by auto
    qed
  qed
  have i4: "\<forall>x k. ?ts x = Some k \<longrightarrow> 1 \<le> k \<and> (\<forall>t. 1 \<le> t \<and> t < k \<longrightarrow> slot_members ?ts t \<noteq> {})"
  proof (intro allI impI)
    fix x k assume xk: "?ts x = Some k"
    show "1 \<le> k \<and> (\<forall>t. 1 \<le> t \<and> t < k \<longrightarrow> slot_members ?ts t \<noteq> {})"
    proof (cases "x = c")
      case True
      with xk have "k = r" by simp
      then show ?thesis using r1 nonempty_below sub by blast
    next
      case False
      with xk have "ts x = Some k" by simp
      then show ?thesis using pos contig sub by blast
    qed
  qed
  have i5: "symmetric g \<longrightarrow>
       (\<forall>a b. a \<in> dom ?ts \<and> b \<in> dom ?ts \<and> a \<noteq> b \<and> b \<in> graph_get g a \<longrightarrow> ?ts a \<noteq> ?ts b)"
  proof (intro allI impI)
    fix a b assume sym: "symmetric g"
      and ab: "a \<in> dom ?ts \<and> b \<in> dom ?ts \<and> a \<noteq> b \<and> b \<in> graph_get g a"
    have avoid: "ts n \<noteq> Some r" if "n \<in> graph_get g c" for n
      using rA that by (auto simp: assigned_slots_iff)
    show "?ts a \<noteq> ?ts b"
    proof (cases "a = c")
      case True
      with ab have "b \<noteq> c" "b \<in> graph_get g c" by auto
      then show ?thesis using True avoid[of b] by auto
    next
      case ac: False
      show ?thesis
      proof (cases "b = c")
        case True
        with ab sym have "a \<in> graph_get g c" by (auto simp: symmetric_def)
        then show ?thesis using True ac avoid[of a] by auto
      next
        case False
        with ac ab proper[OF sym, of a b] show ?thesis by auto
      qed
    qed
  qed
  have "place g c (ts, cnt) = Some (?ts, ?cnt)" using r by (simp add: place_def)
  moreover have "loop_inv g ?ts ?cnt"
    unfolding loop_inv_def using i1 i2 i3 i4 i5 by blast
  ultimately show ?thesis by blast
qed

lemma assign_all_inv:
  "loop_inv g ts cnt \<Longrightarrow> distinct cs \<Longrightarrow> set cs \<inter> dom ts = {}
     \<Longrightarrow> \<exists>ts' cnt'. assign_all g cs (ts, cnt) = Some (ts', cnt')
           \<and> loop_inv g ts' cnt' \<and> dom ts' = dom ts \<union> set cs"
proof (induction cs arbitrary: ts cnt)
  case Nil
  then show ?case by simp
next
  case (Cons c cs)
  from Cons.prems have fresh: "c \<notin> dom ts" by auto
  from place_step[OF Cons.prems(1) fresh] obtain r
    where p: "place g c (ts, cnt) = Some (ts(c \<mapsto> r), cnt(r := cnt r + 1))"
      and inv': "loop_inv g (ts(c \<mapsto> r)) (cnt(r := cnt r + 1))" by blast
  have "distinct cs" "set cs \<inter> dom (ts(c \<mapsto> r)) = {}" using Cons.prems by auto
  from Cons.IH[OF inv' this] obtain ts' cnt'
    where "assign_all g cs (ts(c \<mapsto> r), cnt(r := cnt r + 1)) = Some (ts', cnt')"
      "loop_inv g ts' cnt'" "dom ts' = dom (ts(c \<mapsto> r)) \<union> set cs" by blast
  with p show ?case by auto
qed

lemma loop_inv_empty: "loop_inv g Map.empty (\<lambda>slot. 0)"
  by (simp add: loop_inv_def slot_members_def)


section \<open>The whole of \<^verbatim>\<open>schedule_exams\<close>\<close>

lemma graph_touch_apply:
  "graph_touch g c k = (if k = c \<and> g c = None then Some {} else g k)"
  by (simp add: graph_touch_def split: option.splits)

lemma touch_all_apply:
  "touch_all g enum k = (if k \<in> set enum \<and> g k = None then Some {} else g k)"
proof (induction enum arbitrary: g)
  case Nil
  then show ?case by (simp add: touch_all_def)
next
  case (Cons c cs)
  have "touch_all g (c # cs) k = touch_all (graph_touch g c) cs k" by (simp add: touch_all_def)
  also have "\<dots> = (if k \<in> set cs \<and> graph_touch g c k = None then Some {} else graph_touch g c k)"
    by (rule Cons.IH)
  also have "\<dots> = (if k \<in> set (c # cs) \<and> g k = None then Some {} else g k)"
    by (auto simp: graph_touch_apply)
  finally show ?case .
qed

lemma graph_get_touch_all: "graph_get (touch_all g enum) = graph_get g"
  by (rule ext) (simp add: graph_get_def touch_all_apply)

lemma loop_inv_cong: "graph_get g' = graph_get g \<Longrightarrow> loop_inv g' ts cnt = loop_inv g ts cnt"
  by (simp add: loop_inv_def symmetric_def)

lemma enumerates_sorted_courses:
  "enumerates enum cs \<Longrightarrow> enumerates (sorted_courses g enum) cs"
  by (simp add: enumerates_def sorted_courses_def)

lemma schedule_exams_inv:
  assumes "enumerates enum (courses s)"
  shows "\<exists>ts cnt. schedule_exams enum s = Some (ts, s\<lparr>graph := touch_all (graph s) enum\<rparr>)
           \<and> loop_inv (graph s) ts cnt \<and> dom ts = courses s"
proof (cases "courses s = {}")
  case True
  with assms have "enum = []" by (simp add: enumerates_def)
  then have "s\<lparr>graph := touch_all (graph s) enum\<rparr> = s" by (simp add: touch_all_def)
  with True show ?thesis
    using loop_inv_empty[of "graph s"] by (auto simp: schedule_exams_def)
next
  case False
  let ?g = "touch_all (graph s) enum"
  let ?cs = "sorted_courses (graph s) enum"
  have e: "distinct ?cs" "set ?cs = courses s"
    using enumerates_sorted_courses[OF assms, of "graph s"] by (auto simp: enumerates_def)
  have "loop_inv ?g Map.empty (\<lambda>slot. 0)" by (rule loop_inv_empty)
  from assign_all_inv[OF this e(1)] obtain ts cnt
    where a: "assign_all ?g ?cs (Map.empty, \<lambda>slot. 0) = Some (ts, cnt)"
      and i: "loop_inv ?g ts cnt" and d: "dom ts = set ?cs" by auto
  from i have "loop_inv (graph s) ts cnt"
    by (simp add: loop_inv_cong[OF graph_get_touch_all])
  with a d e(2) False show ?thesis by (auto simp: schedule_exams_def)
qed


section \<open>What every sequence of calls preserves\<close>

lemma graph_get_add_conflict:
  "graph_get (graph (add_conflict a b s)) k
     = graph_get (graph s) k \<union> (if k = a then {b} else {}) \<union> (if k = b then {a} else {})"
  by (auto simp: add_conflict_def graph_add_def graph_get_def split: option.splits)

lemma graph_get_remove_course:
  "graph_get (graph (remove_course c s)) k
     = (if c \<in> courses s then (if k = c then {} else graph_get (graph s) k - {c})
        else graph_get (graph s) k)"
  by (auto simp: remove_course_def graph_get_def split: option.splits)

lemma schedule_exams_state:
  assumes "enumerates enum (courses s)" "schedule_exams enum s = Some (ts, s')"
  shows "s' = s\<lparr>graph := touch_all (graph s) enum\<rparr>"
  using schedule_exams_inv[OF assms(1)] assms(2) by auto

lemma symmetric_add_conflict: "symmetric (graph s) \<Longrightarrow> symmetric (graph (add_conflict a b s))"
  unfolding symmetric_def graph_get_add_conflict by (auto split: if_splits)

lemma symmetric_remove_course: "symmetric (graph s) \<Longrightarrow> symmetric (graph (remove_course c s))"
  unfolding symmetric_def graph_get_remove_course by (auto split: if_splits)

lemma run_symmetric: "run calls s \<Longrightarrow> symmetric (graph s)"
proof (induction rule: run.induct)
  case start
  show ?case by (simp add: symmetric_def init_def graph_get_def)
next
  case (add_course calls s c)
  then show ?case by (simp add: add_course_def)
next
  case (remove_course calls s c)
  from remove_course.IH show ?case by (rule symmetric_remove_course)
next
  case (add_conflict calls s a b)
  from add_conflict.IH show ?case by (rule symmetric_add_conflict)
next
  case (schedule_exams calls s enum ts s')
  from schedule_exams_state[OF schedule_exams.hyps(2,3)]
  have "graph_get (graph s') = graph_get (graph s)" by (simp add: graph_get_touch_all)
  with schedule_exams.IH show ?case by (simp add: symmetric_def)
qed

lemma registered_add_conflict: "registered s \<Longrightarrow> registered (add_conflict a b s)"
  unfolding registered_def graph_get_add_conflict
  by (auto simp: add_conflict_def graph_add_def split: if_splits)

lemma registered_remove_course: "registered s \<Longrightarrow> registered (remove_course c s)"
  unfolding registered_def graph_get_remove_course
  by (auto simp: remove_course_def split: if_splits)

lemma run_registered: "run calls s \<Longrightarrow> registered s"
proof (induction rule: run.induct)
  case start
  show ?case by (simp add: registered_def init_def graph_get_def)
next
  case (add_course calls s c)
  then show ?case by (auto simp: add_course_def registered_def)
next
  case (remove_course calls s c)
  from remove_course.IH show ?case by (rule registered_remove_course)
next
  case (add_conflict calls s a b)
  from add_conflict.IH show ?case by (rule registered_add_conflict)
next
  case (schedule_exams calls s enum ts s')
  from schedule_exams_state[OF schedule_exams.hyps(2,3)]
  have s': "s' = s\<lparr>graph := touch_all (graph s) enum\<rparr>" .
  have "set enum = courses s" using schedule_exams.hyps(2) by (simp add: enumerates_def)
  with schedule_exams.IH show ?case
    by (auto simp: s' registered_def graph_get_touch_all touch_all_apply)
qed

lemma irreflexive_add_conflict:
  "irreflexive (graph s) \<Longrightarrow> a \<noteq> b \<Longrightarrow> irreflexive (graph (add_conflict a b s))"
  unfolding irreflexive_def graph_get_add_conflict by auto

lemma irreflexive_remove_course:
  "irreflexive (graph s) \<Longrightarrow> irreflexive (graph (remove_course c s))"
  unfolding irreflexive_def graph_get_remove_course by auto

lemma run_irreflexive:
  "run calls s \<Longrightarrow> \<forall>a. Add_conflict a a \<notin> set calls \<Longrightarrow> irreflexive (graph s)"
proof (induction rule: run.induct)
  case start
  show ?case by (simp add: irreflexive_def init_def graph_get_def)
next
  case (add_course calls s c)
  then show ?case by (simp add: add_course_def)
next
  case (remove_course calls s c)
  then show ?case by (simp add: irreflexive_remove_course)
next
  case (add_conflict calls s a b)
  then have "a \<noteq> b" "irreflexive (graph s)" by auto
  then show ?case by (simp add: irreflexive_add_conflict)
next
  case (schedule_exams calls s enum ts s')
  from schedule_exams_state[OF schedule_exams.hyps(2,3)]
  have "graph_get (graph s') = graph_get (graph s)" by (simp add: graph_get_touch_all)
  with schedule_exams show ?case by (simp add: irreflexive_def)
qed


section \<open>The cycle of four courses\<close>

lemma sort_key_const: "\<forall>x \<in> set xs. f x = k \<Longrightarrow> sort_key f xs = xs"
proof (induction xs)
  case Nil
  show ?case by simp
next
  case (Cons x xs)
  then have "sort_key f xs = xs" by simp
  then have "sort_key f (x # xs) = insort_key f x xs" by simp
  also have "\<dots> = x # xs" using Cons.prems by (cases xs) auto
  finally show ?case .
qed

lemma courses_cycle4: "courses cycle4 = {''A'', ''B'', ''C'', ''D''}"
  by (auto simp: cycle4_def add_conflict_def init_def)

lemma graph_get_init: "graph_get (graph init) k = {}"
  by (simp add: init_def graph_get_def)

lemma neighbours_cycle4:
  "graph_get (graph cycle4) ''A'' = {''B'', ''D''}"
  "graph_get (graph cycle4) ''B'' = {''A'', ''C''}"
  "graph_get (graph cycle4) ''C'' = {''B'', ''D''}"
  "graph_get (graph cycle4) ''D'' = {''A'', ''C''}"
  unfolding cycle4_def graph_get_add_conflict graph_get_init by auto


lemma degree_cycle4: "c \<in> courses cycle4 \<Longrightarrow> degree (graph cycle4) c = 2"
  unfolding courses_cycle4 degree_def by (auto simp: neighbours_cycle4)

lemma sorted_courses_cycle4:
  "set enum = courses cycle4 \<Longrightarrow> sorted_courses (graph cycle4) enum = enum"
  unfolding sorted_courses_def by (rule sort_key_const[where k = "- 2"]) (simp add: degree_cycle4)

lemma touch_all_cycle4: "set enum = courses cycle4 \<Longrightarrow> touch_all (graph cycle4) enum = graph cycle4"
proof (rule ext)
  fix k assume e: "set enum = courses cycle4"
  have "graph_get (graph cycle4) k \<noteq> {}" if "k \<in> courses cycle4"
    using that unfolding courses_cycle4 by (auto simp: neighbours_cycle4)
  then have "k \<in> courses cycle4 \<Longrightarrow> graph cycle4 k \<noteq> None"
    by (auto simp: graph_get_def)
  with e show "touch_all (graph cycle4) enum k = graph cycle4 k"
    by (simp add: touch_all_apply)
qed

lemma find_slot_skip:
  "slot \<in> A \<or> 2 \<le> cnt slot \<Longrightarrow> find_slot A cnt slot = find_slot A cnt (Suc slot)"
  by (subst find_slot.simps) simp

lemma find_slot_stop:
  "slot \<notin> A \<Longrightarrow> cnt slot < 2 \<Longrightarrow> find_slot A cnt slot = Some slot"
  by (subst find_slot.simps) simp

lemma place_eval:
  "place g c (ts, cnt) =
     (case find_slot (assigned_slots ts (graph_get g c)) cnt 1 of
        None \<Rightarrow> None | Some slot \<Rightarrow> Some (ts(c \<mapsto> slot), cnt(slot := cnt slot + 1)))"
  by (simp add: place_def)

lemma orders_cycle4:
  assumes "distinct [a, b, c, d]"
    and "a \<in> {''A'', ''B'', ''C'', ''D''}" and "b \<in> {''A'', ''B'', ''C'', ''D''}"
    and "c \<in> {''A'', ''B'', ''C'', ''D''}" and "d \<in> {''A'', ''B'', ''C'', ''D''}"
  shows "[a, b, c, d] \<in>
      {[''A'', ''B'', ''C'', ''D''],
       [''A'', ''B'', ''D'', ''C''],
       [''A'', ''C'', ''B'', ''D''],
       [''A'', ''C'', ''D'', ''B''],
       [''A'', ''D'', ''B'', ''C''],
       [''A'', ''D'', ''C'', ''B''],
       [''B'', ''A'', ''C'', ''D''],
       [''B'', ''A'', ''D'', ''C''],
       [''B'', ''C'', ''A'', ''D''],
       [''B'', ''C'', ''D'', ''A''],
       [''B'', ''D'', ''A'', ''C''],
       [''B'', ''D'', ''C'', ''A''],
       [''C'', ''A'', ''B'', ''D''],
       [''C'', ''A'', ''D'', ''B''],
       [''C'', ''B'', ''A'', ''D''],
       [''C'', ''B'', ''D'', ''A''],
       [''C'', ''D'', ''A'', ''B''],
       [''C'', ''D'', ''B'', ''A''],
       [''D'', ''A'', ''B'', ''C''],
       [''D'', ''A'', ''C'', ''B''],
       [''D'', ''B'', ''A'', ''C''],
       [''D'', ''B'', ''C'', ''A''],
       [''D'', ''C'', ''A'', ''B''],
       [''D'', ''C'', ''B'', ''A'']}"
  using assms by (elim insertE emptyE; simp)

lemma assign_cycle4:
  assumes "enum \<in>
      {[''A'', ''B'', ''C'', ''D''],
       [''A'', ''B'', ''D'', ''C''],
       [''A'', ''C'', ''B'', ''D''],
       [''A'', ''C'', ''D'', ''B''],
       [''A'', ''D'', ''B'', ''C''],
       [''A'', ''D'', ''C'', ''B''],
       [''B'', ''A'', ''C'', ''D''],
       [''B'', ''A'', ''D'', ''C''],
       [''B'', ''C'', ''A'', ''D''],
       [''B'', ''C'', ''D'', ''A''],
       [''B'', ''D'', ''A'', ''C''],
       [''B'', ''D'', ''C'', ''A''],
       [''C'', ''A'', ''B'', ''D''],
       [''C'', ''A'', ''D'', ''B''],
       [''C'', ''B'', ''A'', ''D''],
       [''C'', ''B'', ''D'', ''A''],
       [''C'', ''D'', ''A'', ''B''],
       [''C'', ''D'', ''B'', ''A''],
       [''D'', ''A'', ''B'', ''C''],
       [''D'', ''A'', ''C'', ''B''],
       [''D'', ''B'', ''A'', ''C''],
       [''D'', ''B'', ''C'', ''A''],
       [''D'', ''C'', ''A'', ''B''],
       [''D'', ''C'', ''B'', ''A'']}"
  shows "map_option fst (assign_all (graph cycle4) enum (Map.empty, \<lambda>slot. 0))
     = Some (if hd enum \<in> {''A'', ''C''}
             then [''A'' \<mapsto> 1, ''B'' \<mapsto> 2, ''C'' \<mapsto> 1, ''D'' \<mapsto> 2]
             else [''A'' \<mapsto> 2, ''B'' \<mapsto> 1, ''C'' \<mapsto> 2, ''D'' \<mapsto> 1])"
  using assms
  by (elim insertE emptyE;
      simp add: place_eval neighbours_cycle4 assigned_slots_iff find_slot_skip find_slot_stop
        numeral_2_eq_2 fun_eq_iff)

lemma schedule_exams_cycle4:
  assumes "set enum = courses cycle4"
  shows "schedule_exams enum cycle4
     = map_option (\<lambda>st. (fst st, cycle4))
         (assign_all (graph cycle4) enum (Map.empty, \<lambda>slot. 0))"
proof -
  have "courses cycle4 \<noteq> {}" by (simp add: courses_cycle4)
  moreover have "cycle4\<lparr>graph := graph cycle4\<rparr> = cycle4" by simp
  ultimately show ?thesis
    by (simp add: schedule_exams_def Let_def touch_all_cycle4[OF assms] sorted_courses_cycle4[OF assms]
        split: option.splits prod.splits)
qed

lemma assign_cycle4_any:
  assumes "distinct [a, b, c, d]"
    and "a \<in> {''A'', ''B'', ''C'', ''D''}" and "b \<in> {''A'', ''B'', ''C'', ''D''}"
    and "c \<in> {''A'', ''B'', ''C'', ''D''}" and "d \<in> {''A'', ''B'', ''C'', ''D''}"
  shows "map_option fst (assign_all (graph cycle4) [a, b, c, d] (Map.empty, \<lambda>slot. 0))
     = Some (if a \<in> {''A'', ''C''}
             then [''A'' \<mapsto> 1, ''B'' \<mapsto> 2, ''C'' \<mapsto> 1, ''D'' \<mapsto> 2]
             else [''A'' \<mapsto> 2, ''B'' \<mapsto> 1, ''C'' \<mapsto> 2, ''D'' \<mapsto> 1])"
  using assign_cycle4[OF orders_cycle4[OF assms]] by simp

lemma run_cycle4:
  "run [Add_conflict ''A'' ''B'', Add_conflict ''B'' ''C'', Add_conflict ''C'' ''D'',
        Add_conflict ''A'' ''D''] cycle4"
  using run.add_conflict[OF run.add_conflict[OF run.add_conflict[OF run.add_conflict[OF run.start,
    of "''A''" "''B''"], of "''B''" "''C''"], of "''C''" "''D''"], of "''A''" "''D''"]
  by (simp add: cycle4_def)

section \<open>The claims\<close>

subsection \<open>A course in conflict with itself\<close>

theorem add_conflict_self_counterexample:
  "add_conflict ''A'' ''A'' init = \<lparr>courses = {''A''}, graph = [''A'' \<mapsto> {''A''}]\<rparr>"
  by (simp add: add_conflict_def graph_add_def graph_get_def init_def)

text \<open>
  C1, as the code has it. \<^verbatim>\<open>ExamScheduler.add_conflict(a, a)\<close> does not fail: it returns
  with \<open>a\<close> registered and \<open>a\<close> in its own conflict set. The refusal is in the window's
  handler, which on two equal names (or an empty one) shows a warning and leaves the
  scheduler as it was.
\<close>

theorem add_conflict_self:
  "add_conflict a a s
     = \<lparr>courses = insert a (courses s), graph = (graph s)(a \<mapsto> insert a (graph_get (graph s) a))\<rparr>
   \<and> ui_add_conflict a a s
     = (if a = [] then Enter_both_names else Cannot_conflict_with_itself, s)"
  by (simp add: add_conflict_def graph_add_def graph_get_def ui_add_conflict_def)

theorem add_conflict_self_witness:
  "add_conflict ''Maths'' ''Maths'' init
     = \<lparr>courses = {''Maths''}, graph = [''Maths'' \<mapsto> {''Maths''}]\<rparr>
   \<and> ui_add_conflict ''Maths'' ''Maths'' init = (Cannot_conflict_with_itself, init)"
  using add_conflict_self[of "''Maths''" init] by (simp add: init_def graph_get_def)

subsection \<open>Symmetry of the conflicts\<close>

theorem conflicts_irreflexive_counterexample:
  "run [Add_conflict ''A'' ''A''] (add_conflict ''A'' ''A'' init)
   \<and> ''A'' \<in> graph_get (graph (add_conflict ''A'' ''A'' init)) ''A''"
  using run.add_conflict[OF run.start, of "''A''" "''A''"]
  by (simp add: graph_get_add_conflict)

text \<open>
  C5, as the code has it. After every sequence of calls the conflict relation is
  symmetric; no course is in its own conflict set when no call \<^verbatim>\<open>add_conflict(a, a)\<close> was
  made; and after \<^verbatim>\<open>add_conflict(a, b)\<close> each of \<open>a\<close>, \<open>b\<close> is in the conflict set of the
  other.
\<close>

theorem conflicts_symmetric:
  assumes "run calls s"
  shows "symmetric (graph s)
         \<and> ((\<forall>a. Add_conflict a a \<notin> set calls) \<longrightarrow> irreflexive (graph s))
         \<and> b \<in> graph_get (graph (add_conflict a b s)) a
         \<and> a \<in> graph_get (graph (add_conflict a b s)) b"
  using run_symmetric[OF assms] run_irreflexive[OF assms]
  by (simp add: graph_get_add_conflict)

theorem conflicts_symmetric_witness:
  "run [Add_course ''A'', Add_conflict ''B'' ''C''] (add_conflict ''B'' ''C'' (add_course ''A'' init))
   \<and> (\<forall>a. Add_conflict a a \<notin> set [Add_course ''A'', Add_conflict ''B'' ''C''])
   \<and> symmetric (graph (add_conflict ''B'' ''C'' (add_course ''A'' init)))
   \<and> irreflexive (graph (add_conflict ''B'' ''C'' (add_course ''A'' init)))
   \<and> ''C'' \<in> graph_get (graph (add_conflict ''A'' ''C'' (add_conflict ''B'' ''C'' (add_course ''A'' init)))) ''A''
   \<and> ''A'' \<in> graph_get (graph (add_conflict ''A'' ''C'' (add_conflict ''B'' ''C'' (add_course ''A'' init)))) ''C''"
proof -
  have r: "run [Add_course ''A'', Add_conflict ''B'' ''C'']
             (add_conflict ''B'' ''C'' (add_course ''A'' init))"
    using run.add_conflict[OF run.add_course[OF run.start, of "''A''"], of "''B''" "''C''"] by simp
  have g: "\<forall>a. Add_conflict a a \<notin> set [Add_course ''A'', Add_conflict ''B'' ''C'']" by simp
  from conflicts_symmetric[OF r, of "''C''" "''A''"] r g show ?thesis by blast
qed

subsection \<open>Removing a course\<close>

text \<open>
  C8. In every state that a sequence of calls leads to, after \<^verbatim>\<open>remove_course(x)\<close> the
  course \<open>x\<close> is not registered, has no entry in the graph, and is in no course's
  conflict set; when \<open>x\<close> was not registered the scheduler is unchanged.
\<close>

theorem remove_course_clears:
  assumes "run calls s"
  shows "x \<notin> courses (remove_course x s)
         \<and> graph (remove_course x s) x = None
         \<and> (\<forall>c. x \<notin> graph_get (graph (remove_course x s)) c)
         \<and> (x \<notin> courses s \<longrightarrow> remove_course x s = s)"
proof -
  have reg: "registered s" using assms by (rule run_registered)
  have 1: "x \<notin> courses (remove_course x s)" by (simp add: remove_course_def)
  have 2: "graph (remove_course x s) x = None"
    using reg by (auto simp: remove_course_def registered_def)
  have 3: "\<forall>c. x \<notin> graph_get (graph (remove_course x s)) c"
    using reg unfolding graph_get_remove_course registered_def by auto
  have 4: "x \<notin> courses s \<longrightarrow> remove_course x s = s" by (simp add: remove_course_def)
  from 1 2 3 4 show ?thesis by blast
qed

theorem remove_course_clears_witness:
  "run [Add_conflict ''A'' ''B'', Add_conflict ''A'' ''C''] (add_conflict ''A'' ''C'' (add_conflict ''A'' ''B'' init))
   \<and> ''A'' \<notin> courses (remove_course ''A'' (add_conflict ''A'' ''C'' (add_conflict ''A'' ''B'' init)))
   \<and> graph (remove_course ''A'' (add_conflict ''A'' ''C'' (add_conflict ''A'' ''B'' init))) ''A'' = None
   \<and> ''A'' \<notin> graph_get (graph (remove_course ''A'' (add_conflict ''A'' ''C'' (add_conflict ''A'' ''B'' init)))) ''B''
   \<and> ''A'' \<notin> graph_get (graph (remove_course ''A'' (add_conflict ''A'' ''C'' (add_conflict ''A'' ''B'' init)))) ''C''
   \<and> remove_course ''Z'' (add_conflict ''A'' ''C'' (add_conflict ''A'' ''B'' init))
       = add_conflict ''A'' ''C'' (add_conflict ''A'' ''B'' init)"
proof -
  have r: "run [Add_conflict ''A'' ''B'', Add_conflict ''A'' ''C'']
             (add_conflict ''A'' ''C'' (add_conflict ''A'' ''B'' init))"
    using run.add_conflict[OF run.add_conflict[OF run.start, of "''A''" "''B''"], of "''A''" "''C''"]
    by simp
  have z: "''Z'' \<notin> courses (add_conflict ''A'' ''C'' (add_conflict ''A'' ''B'' init))"
    by (simp add: add_conflict_def init_def)
  from remove_course_clears[OF r, of "''A''"] remove_course_clears[OF r, of "''Z''"] z r
  show ?thesis by blast
qed

subsection \<open>Scheduling nothing\<close>

text \<open>
  C9. When the set of courses is empty, \<^verbatim>\<open>schedule_exams\<close> returns the empty
  assignment (it returns: the result is \<open>Some\<close>) and leaves the scheduler as it was.
\<close>

theorem schedule_exams_empty:
  "courses s = {} \<Longrightarrow> schedule_exams enum s = Some (Map.empty, s)"
  by (simp add: schedule_exams_def)

theorem schedule_exams_empty_witness:
  "courses init = {} \<and> schedule_exams [] init = Some (Map.empty, init)"
  using schedule_exams_empty [of init "[]"] by (simp add: init_def)

subsection \<open>Every course gets a slot\<close>

text \<open>
  C6. Whatever the state and the order in which the courses are enumerated,
  \<^verbatim>\<open>schedule_exams\<close> returns (every slot search ends), and the assignment it returns has
  exactly the registered courses as its keys.
\<close>

theorem schedule_exams_covers:
  "enumerates enum (courses s)
     \<Longrightarrow> \<exists>ts s'. schedule_exams enum s = Some (ts, s') \<and> dom ts = courses s"
  using schedule_exams_inv[of enum s] by blast

theorem schedule_exams_covers_witness:
  "enumerates [''Maths'', ''Physics''] (courses (add_course ''Physics'' (add_course ''Maths'' init)))
     \<and> (\<exists>ts s'. schedule_exams [''Maths'', ''Physics'']
                   (add_course ''Physics'' (add_course ''Maths'' init)) = Some (ts, s')
               \<and> dom ts = courses (add_course ''Physics'' (add_course ''Maths'' init)))"
proof -
  have h: "enumerates [''Maths'', ''Physics'']
             (courses (add_course ''Physics'' (add_course ''Maths'' init)))"
    by (auto simp: enumerates_def add_course_def init_def)
  from schedule_exams_covers[OF h] h show ?thesis by blast
qed

subsection \<open>At most two courses in a slot\<close>

text \<open>
  C3. In the assignment that \<^verbatim>\<open>schedule_exams\<close> returns, every slot holds at most two
  courses.
\<close>

theorem schedule_exams_capacity:
  "enumerates enum (courses s)
     \<Longrightarrow> \<exists>ts s'. schedule_exams enum s = Some (ts, s')
           \<and> (\<forall>slot. finite (slot_members ts slot) \<and> card (slot_members ts slot) \<le> 2)"
proof -
  assume "enumerates enum (courses s)"
  from schedule_exams_inv[OF this] obtain ts cnt s'
    where r: "schedule_exams enum s = Some (ts, s')" and i: "loop_inv (graph s) ts cnt" by blast
  from i have "finite (dom ts)" "\<And>k. cnt k = card (slot_members ts k)" "\<And>k. cnt k \<le> 2"
    unfolding loop_inv_def by blast+
  then have "\<forall>slot. finite (slot_members ts slot) \<and> card (slot_members ts slot) \<le> 2"
    by (metis finite_slot_members)
  with r show ?thesis by blast
qed

theorem schedule_exams_capacity_witness:
  "enumerates [''X'', ''Y'', ''Z''] (courses (add_course ''Z'' (add_course ''Y'' (add_course ''X'' init))))
     \<and> (\<exists>ts s'. schedule_exams [''X'', ''Y'', ''Z'']
                   (add_course ''Z'' (add_course ''Y'' (add_course ''X'' init))) = Some (ts, s')
               \<and> (\<forall>slot. finite (slot_members ts slot) \<and> card (slot_members ts slot) \<le> 2))"
proof -
  have h: "enumerates [''X'', ''Y'', ''Z'']
             (courses (add_course ''Z'' (add_course ''Y'' (add_course ''X'' init))))"
    by (auto simp: enumerates_def add_course_def init_def)
  from schedule_exams_capacity[OF h] h show ?thesis by blast
qed

subsection \<open>No empty slot below a used one\<close>

text \<open>
  C10. The slots of the assignment that \<^verbatim>\<open>schedule_exams\<close> returns start at 1 and have
  no gap: when a course is in slot \<open>k\<close>, every slot from 1 up to \<open>k\<close> holds a course.
\<close>

theorem schedule_exams_contiguous:
  "enumerates enum (courses s)
     \<Longrightarrow> \<exists>ts s'. schedule_exams enum s = Some (ts, s')
           \<and> (\<forall>c k. ts c = Some k \<longrightarrow> 1 \<le> k \<and> (\<forall>t. 1 \<le> t \<and> t < k \<longrightarrow> (\<exists>d. ts d = Some t)))"
proof -
  assume "enumerates enum (courses s)"
  from schedule_exams_inv[OF this] obtain ts cnt s'
    where r: "schedule_exams enum s = Some (ts, s')" and i: "loop_inv (graph s) ts cnt" by blast
  from i have "\<forall>c k. ts c = Some k \<longrightarrow> 1 \<le> k \<and> (\<forall>t. 1 \<le> t \<and> t < k \<longrightarrow> slot_members ts t \<noteq> {})"
    unfolding loop_inv_def by blast
  then have "\<forall>c k. ts c = Some k \<longrightarrow> 1 \<le> k \<and> (\<forall>t. 1 \<le> t \<and> t < k \<longrightarrow> (\<exists>d. ts d = Some t))"
    unfolding slot_members_def by blast
  with r show ?thesis by blast
qed

theorem schedule_exams_contiguous_witness:
  "enumerates [''P'', ''Q'', ''R''] (courses (add_conflict ''Q'' ''R'' (add_conflict ''P'' ''Q'' init)))
     \<and> (\<exists>ts s'. schedule_exams [''P'', ''Q'', ''R'']
                   (add_conflict ''Q'' ''R'' (add_conflict ''P'' ''Q'' init)) = Some (ts, s')
           \<and> (\<forall>c k. ts c = Some k \<longrightarrow> 1 \<le> k \<and> (\<forall>t. 1 \<le> t \<and> t < k \<longrightarrow> (\<exists>d. ts d = Some t))))"
proof -
  have h: "enumerates [''P'', ''Q'', ''R'']
             (courses (add_conflict ''Q'' ''R'' (add_conflict ''P'' ''Q'' init)))"
    by (auto simp: enumerates_def add_conflict_def init_def)
  from schedule_exams_contiguous[OF h] h show ?thesis by blast
qed

subsection \<open>Conflicting courses are in different slots\<close>

theorem schedule_exams_self_conflict_counterexample:
  "''A'' \<in> graph_get (graph (add_conflict ''A'' ''A'' init)) ''A''
   \<and> schedule_exams [''A''] (add_conflict ''A'' ''A'' init)
       = Some ([''A'' \<mapsto> 1], add_conflict ''A'' ''A'' init)"
proof
  show "''A'' \<in> graph_get (graph (add_conflict ''A'' ''A'' init)) ''A''"
    by (simp add: graph_get_add_conflict)
  have "find_slot {} (\<lambda>slot. 0) 1 = Some 1" by (subst find_slot.simps) simp
  then show "schedule_exams [''A''] (add_conflict ''A'' ''A'' init)
       = Some ([''A'' \<mapsto> 1], add_conflict ''A'' ''A'' init)"
    by (simp add: schedule_exams_def add_conflict_def graph_add_def init_def touch_all_def
        graph_touch_def sorted_courses_def place_def assigned_slots_def graph_get_def)
qed

text \<open>
  C2, as the code has it. In every state that a sequence of calls leads to, the
  assignment that \<^verbatim>\<open>schedule_exams\<close> returns gives different slots to every two
  distinct courses that conflict.
\<close>

theorem schedule_exams_conflicts_apart:
  assumes "run calls s" and "enumerates enum (courses s)"
  shows "\<exists>ts s'. schedule_exams enum s = Some (ts, s')
           \<and> (\<forall>a b. b \<in> graph_get (graph s) a \<and> a \<noteq> b
                  \<longrightarrow> (\<exists>i j. ts a = Some i \<and> ts b = Some j \<and> i \<noteq> j))"
proof -
  from schedule_exams_inv[OF assms(2)] obtain ts cnt s'
    where r: "schedule_exams enum s = Some (ts, s')" and i: "loop_inv (graph s) ts cnt"
      and d: "dom ts = courses s" by blast
  have sym: "symmetric (graph s)" using assms(1) by (rule run_symmetric)
  have reg: "registered s" using assms(1) by (rule run_registered)
  from i sym have proper: "\<And>a b. a \<in> dom ts \<Longrightarrow> b \<in> dom ts \<Longrightarrow> a \<noteq> b \<Longrightarrow> b \<in> graph_get (graph s) a
                      \<Longrightarrow> ts a \<noteq> ts b"
    unfolding loop_inv_def by blast
  have "\<exists>i j. ts a = Some i \<and> ts b = Some j \<and> i \<noteq> j"
    if ab: "b \<in> graph_get (graph s) a" "a \<noteq> b" for a b
  proof -
    from ab(1) reg have "b \<in> courses s" unfolding registered_def by blast
    moreover from ab(1) reg have "a \<in> courses s"
      unfolding registered_def graph_get_def by (metis empty_iff option.simps(4))
    ultimately have "a \<in> dom ts" "b \<in> dom ts" using d by auto
    with proper[OF this ab(2,1)] show ?thesis by auto
  qed
  with r show ?thesis by blast
qed

theorem schedule_exams_conflicts_apart_witness:
  "run [Add_conflict ''A'' ''B'', Add_conflict ''B'' ''C'', Add_conflict ''C'' ''D'',
        Add_conflict ''A'' ''D''] cycle4
   \<and> enumerates [''D'', ''C'', ''B'', ''A''] (courses cycle4)
   \<and> (\<exists>ts s'. schedule_exams [''D'', ''C'', ''B'', ''A''] cycle4 = Some (ts, s')
           \<and> (\<forall>a b. b \<in> graph_get (graph cycle4) a \<and> a \<noteq> b
                  \<longrightarrow> (\<exists>i j. ts a = Some i \<and> ts b = Some j \<and> i \<noteq> j)))"
proof -
  have h: "enumerates [''D'', ''C'', ''B'', ''A''] (courses cycle4)"
    by (auto simp: enumerates_def cycle4_def add_conflict_def init_def)
  from schedule_exams_conflicts_apart[OF run_cycle4 h] run_cycle4 h show ?thesis by blast
qed

subsection \<open>What \<^verbatim>\<open>schedule_exams\<close> does to the scheduler\<close>

theorem schedule_exams_frame_counterexample:
  "schedule_exams [''A''] (add_course ''A'' init)
     = Some ([''A'' \<mapsto> 1], \<lparr>courses = {''A''}, graph = [''A'' \<mapsto> {}]\<rparr>)
   \<and> \<lparr>courses = {''A''}, graph = [''A'' \<mapsto> {}]\<rparr> \<noteq> add_course ''A'' init"
proof
  have "find_slot {} (\<lambda>slot. 0) 1 = Some 1" by (subst find_slot.simps) simp
  then show "schedule_exams [''A''] (add_course ''A'' init)
     = Some ([''A'' \<mapsto> 1], \<lparr>courses = {''A''}, graph = [''A'' \<mapsto> {}]\<rparr>)"
    by (simp add: schedule_exams_def add_course_def init_def touch_all_def graph_touch_def
        sorted_courses_def place_def assigned_slots_def graph_get_def)
  have "graph \<lparr>courses = {''A''}, graph = [''A'' \<mapsto> {}]\<rparr> ''A'' \<noteq> graph (add_course ''A'' init) ''A''"
    by (simp add: add_course_def init_def)
  then show "\<lparr>courses = {''A''}, graph = [''A'' \<mapsto> {}]\<rparr> \<noteq> add_course ''A'' init"
    by metis
qed

text \<open>
  C7, as the code has it. \<^verbatim>\<open>schedule_exams\<close> leaves the set of courses and the conflict
  set of every course as they were; the dictionary \<^verbatim>\<open>graph\<close> changes in one way only:
  a registered course that had no entry gets the empty set.
\<close>

theorem schedule_exams_frame:
  assumes "enumerates enum (courses s)"
  shows "\<exists>ts s'. schedule_exams enum s = Some (ts, s')
           \<and> courses s' = courses s
           \<and> graph_get (graph s') = graph_get (graph s)
           \<and> graph s' = (\<lambda>c. if c \<in> courses s \<and> graph s c = None then Some {} else graph s c)"
proof -
  from schedule_exams_inv[OF assms] obtain ts
    where r: "schedule_exams enum s = Some (ts, s\<lparr>graph := touch_all (graph s) enum\<rparr>)" by blast
  let ?s' = "s\<lparr>graph := touch_all (graph s) enum\<rparr>"
  have "set enum = courses s" using assms by (simp add: enumerates_def)
  then have "graph ?s'
      = (\<lambda>c. if c \<in> courses s \<and> graph s c = None then Some {} else graph s c)"
    by (auto simp: touch_all_apply)
  moreover have "graph_get (graph ?s') = graph_get (graph s)" by (simp add: graph_get_touch_all)
  moreover have "courses ?s' = courses s" by simp
  ultimately show ?thesis using r by blast
qed

theorem schedule_exams_frame_witness:
  "enumerates [''A'', ''B'', ''C''] (courses (add_course ''C'' (add_conflict ''A'' ''B'' init)))
   \<and> (\<exists>ts s'. schedule_exams [''A'', ''B'', ''C''] (add_course ''C'' (add_conflict ''A'' ''B'' init))
                 = Some (ts, s')
           \<and> courses s' = {''A'', ''B'', ''C''}
           \<and> graph s' ''A'' = Some {''B''} \<and> graph s' ''B'' = Some {''A''}
           \<and> graph s' ''C'' = Some {} \<and> graph s' ''D'' = None)"
proof -
  have h: "enumerates [''A'', ''B'', ''C''] (courses (add_course ''C'' (add_conflict ''A'' ''B'' init)))"
    by (auto simp: enumerates_def add_course_def add_conflict_def init_def)
  from schedule_exams_frame[OF h] obtain ts s'
    where "schedule_exams [''A'', ''B'', ''C''] (add_course ''C'' (add_conflict ''A'' ''B'' init))
             = Some (ts, s')"
      and "courses s' = courses (add_course ''C'' (add_conflict ''A'' ''B'' init))"
      and "graph s' = (\<lambda>c. if c \<in> courses (add_course ''C'' (add_conflict ''A'' ''B'' init))
                              \<and> graph (add_course ''C'' (add_conflict ''A'' ''B'' init)) c = None
                            then Some {} else graph (add_course ''C'' (add_conflict ''A'' ''B'' init)) c)"
    by blast
  then have "schedule_exams [''A'', ''B'', ''C''] (add_course ''C'' (add_conflict ''A'' ''B'' init))
                 = Some (ts, s')
           \<and> courses s' = {''A'', ''B'', ''C''}
           \<and> graph s' ''A'' = Some {''B''} \<and> graph s' ''B'' = Some {''A''}
           \<and> graph s' ''C'' = Some {} \<and> graph s' ''D'' = None"
    by (auto simp: add_course_def add_conflict_def graph_add_def graph_get_def init_def)
  with h show ?thesis by blast
qed

subsection \<open>The worked example\<close>

theorem cycle4_order_counterexample:
  "enumerates [''B'', ''A'', ''C'', ''D''] (courses cycle4)
   \<and> schedule_exams [''B'', ''A'', ''C'', ''D''] cycle4
       = Some ([''A'' \<mapsto> 2, ''B'' \<mapsto> 1, ''C'' \<mapsto> 2, ''D'' \<mapsto> 1], cycle4)
   \<and> [''A'' \<mapsto> 2, ''B'' \<mapsto> 1, ''C'' \<mapsto> 2, ''D'' \<mapsto> 1] ''A''
       \<noteq> [''A'' \<mapsto> 1, ''B'' \<mapsto> 2, ''C'' \<mapsto> 1, ''D'' \<mapsto> (2::nat)] ''A''"
proof -
  have e: "enumerates [''B'', ''A'', ''C'', ''D''] (courses cycle4)"
    by (auto simp: enumerates_def courses_cycle4)
  then have s: "set [''B'', ''A'', ''C'', ''D''] = courses cycle4" by (simp add: enumerates_def)
  have "map_option fst (assign_all (graph cycle4) [''B'', ''A'', ''C'', ''D''] (Map.empty, \<lambda>slot. 0))
     = Some [''A'' \<mapsto> 2, ''B'' \<mapsto> 1, ''C'' \<mapsto> 2, ''D'' \<mapsto> 1]"
    using assign_cycle4[of "[''B'', ''A'', ''C'', ''D'']"] by simp
  then have "schedule_exams [''B'', ''A'', ''C'', ''D''] cycle4
       = Some ([''A'' \<mapsto> 2, ''B'' \<mapsto> 1, ''C'' \<mapsto> 2, ''D'' \<mapsto> 1], cycle4)"
    unfolding schedule_exams_cycle4[OF s] by auto
  with e show ?thesis by simp
qed

text \<open>
  C4, as the code has it. On the cycle A-B, B-C, C-D, A-D all four courses have degree 2,
  and the stable sort keeps the order in which the set of courses is enumerated. For
  every such order \<^verbatim>\<open>schedule_exams\<close> uses the two slots 1 and 2; it returns
  \<open>{A:1, B:2, C:1, D:2}\<close> when A or C is enumerated first (so for the order A, B, C, D),
  and \<open>{A:2, B:1, C:2, D:1}\<close> when B or D is.
\<close>

theorem cycle4_schedule:
  assumes "enumerates enum (courses cycle4)"
  shows "\<exists>ts. schedule_exams enum cycle4 = Some (ts, cycle4)
           \<and> ts = (if hd enum \<in> {''A'', ''C''}
                   then [''A'' \<mapsto> 1, ''B'' \<mapsto> 2, ''C'' \<mapsto> 1, ''D'' \<mapsto> 2]
                   else [''A'' \<mapsto> 2, ''B'' \<mapsto> 1, ''C'' \<mapsto> 2, ''D'' \<mapsto> 1])
           \<and> ran ts = {1, 2}"
proof -
  let ?ts = "if hd enum \<in> {''A'', ''C''}
             then [''A'' \<mapsto> 1, ''B'' \<mapsto> 2, ''C'' \<mapsto> 1, ''D'' \<mapsto> (2::nat)]
             else [''A'' \<mapsto> 2, ''B'' \<mapsto> 1, ''C'' \<mapsto> 2, ''D'' \<mapsto> 1]"
  from assms have d: "distinct enum" and s: "set enum = courses cycle4"
    by (simp_all add: enumerates_def)
  have "length enum = card (set enum)" using d by (simp add: distinct_card)
  also have "\<dots> = 4" unfolding s courses_cycle4 by simp
  finally have "length enum = Suc (Suc (Suc (Suc 0)))" by simp
  then obtain a b c d where e: "enum = [a, b, c, d]"
    by (auto simp: length_Suc_conv)
  with s have "{a, b, c, d} = {''A'', ''B'', ''C'', ''D''}" by (simp add: courses_cycle4)
  then have "a \<in> {''A'', ''B'', ''C'', ''D''}" "b \<in> {''A'', ''B'', ''C'', ''D''}"
    "c \<in> {''A'', ''B'', ''C'', ''D''}" "d \<in> {''A'', ''B'', ''C'', ''D''}" by blast+
  with d have "map_option fst (assign_all (graph cycle4) enum (Map.empty, \<lambda>slot. 0)) = Some ?ts"
    unfolding e using assign_cycle4_any[of a b c d] by simp
  then have r: "schedule_exams enum cycle4 = Some (?ts, cycle4)"
    unfolding schedule_exams_cycle4[OF s] by auto
  have "ran [''A'' \<mapsto> 1, ''B'' \<mapsto> 2, ''C'' \<mapsto> 1, ''D'' \<mapsto> (2::nat)] = {1, 2}"
       "ran [''A'' \<mapsto> 2, ''B'' \<mapsto> 1, ''C'' \<mapsto> 2, ''D'' \<mapsto> (1::nat)] = {1, 2}"
    by (simp_all add: ran_map_upd insert_commute)
  then have "ran ?ts = {1, 2}" by simp
  with r show ?thesis by blast
qed

theorem cycle4_schedule_witness:
  "enumerates [''A'', ''B'', ''C'', ''D''] (courses cycle4)
   \<and> schedule_exams [''A'', ''B'', ''C'', ''D''] cycle4
       = Some ([''A'' \<mapsto> 1, ''B'' \<mapsto> 2, ''C'' \<mapsto> 1, ''D'' \<mapsto> 2], cycle4)"
proof -
  have e: "enumerates [''A'', ''B'', ''C'', ''D''] (courses cycle4)"
    by (auto simp: enumerates_def courses_cycle4)
  from cycle4_schedule[OF e] e show ?thesis by simp
qed

end
